theory Spec2Isabelle
  imports Complex_Main "HOL-Library.Multiset"
begin

section \<open>Errors\<close>

text \<open>
  The Python exceptions the modelled code can raise: \<open>ValueError\<close> (raised by
  \<open>generate_password\<close> with a message) and \<open>IndexError\<close> (indexing an empty
  deque, \<open>random.choice\<close> on an empty sequence).
\<close>

datatype error = ValueError string | IndexError

section \<open>Rate limiting (app.py, \<open>check_rate_limit\<close>)\<close>

text \<open>
  The module-level settings \<open>RATE_LIMIT_WINDOW\<close>, \<open>PUBLIC_RATE_LIMIT\<close>,
  \<open>TRUSTED_RATE_LIMIT\<close> and \<open>API_KEY\<close> are Python globals; they are gathered in a
  record that every function reading them takes as an argument. \<open>default_config\<close>
  holds the values written in the source.
\<close>

record config =
  RATE_LIMIT_WINDOW :: int
  PUBLIC_RATE_LIMIT :: int
  TRUSTED_RATE_LIMIT :: int
  API_KEY :: string

definition default_config :: config where
  "default_config =
     \<lparr> RATE_LIMIT_WINDOW = 60, PUBLIC_RATE_LIMIT = 60, TRUSTED_RATE_LIMIT = 300,
       API_KEY = ''CHANGE_ME_API_KEY'' \<rparr>"

text \<open>
  \<open>rate_buckets\<close> is a dict from the client address to a deque of timestamps, oldest
  first. \<open>time.time()\<close> is a float; timestamps are modelled as reals, and the clock
  reading is an argument \<open>now\<close> of the function. The arithmetic of this section is
  exact; the rounding of float operations is added in the next section.
\<close>

type_synonym buckets = "string \<rightharpoonup> real list"

text \<open>\<open>while bucket and now - bucket[0] > RATE_LIMIT_WINDOW: bucket.popleft()\<close>\<close>

fun prune :: "int \<Rightarrow> real \<Rightarrow> real list \<Rightarrow> real list" where
  "prune w now [] = []"
| "prune w now (t # ts) = (if now - t > real_of_int w then prune w now ts else t # ts)"

text \<open>Python's \<open>int(x)\<close> on a float truncates towards zero.\<close>

definition py_int_of_float :: "real \<Rightarrow> int" where
  "py_int_of_float x = (if x \<ge> 0 then \<lfloor>x\<rfloor> else \<lceil>x\<rceil>)"

text \<open>
  The function returns the pair \<open>(allowed, retry_after)\<close> or raises (\<open>bucket[0]\<close> on
  an empty deque, which needs a limit that is not positive); in both cases the dict has
  been mutated, so the new dict is returned beside the outcome.
\<close>

definition check_rate_limit ::
  "config \<Rightarrow> buckets \<Rightarrow> string \<Rightarrow> bool \<Rightarrow> real \<Rightarrow> (error + bool \<times> int option) \<times> buckets" where
  "check_rate_limit cfg rate_buckets ip is_trusted now =
     (let limit = (if is_trusted then TRUSTED_RATE_LIMIT cfg else PUBLIC_RATE_LIMIT cfg);
          rate_buckets1 = (if ip \<notin> dom rate_buckets then rate_buckets(ip \<mapsto> []) else rate_buckets);
          bucket = prune (RATE_LIMIT_WINDOW cfg) now (the (rate_buckets1 ip))
      in if int (length bucket) \<ge> limit then
           (case bucket of
              [] \<Rightarrow> (Inl IndexError, rate_buckets1(ip \<mapsto> bucket))
            | t0 # _ \<Rightarrow>
                (Inr (False, Some (py_int_of_float (real_of_int (RATE_LIMIT_WINDOW cfg) - (now - t0)))),
                 rate_buckets1(ip \<mapsto> bucket)))
         else (Inr (True, None), rate_buckets1(ip \<mapsto> bucket @ [now])))"

text \<open>
  A sequence of calls for one client at the given clock readings: the outcomes in order,
  and the dict after the last call. A call that raises leaves the dict as it mutated it,
  and the next call runs on that dict.
\<close>

fun check_all ::
  "config \<Rightarrow> buckets \<Rightarrow> string \<Rightarrow> bool \<Rightarrow> real list \<Rightarrow> (error + bool \<times> int option) list \<times> buckets" where
  "check_all cfg b ip tr [] = ([], b)"
| "check_all cfg b ip tr (now # nows) =
     (let (r, b1) = check_rate_limit cfg b ip tr now;
          (rs, b2) = check_all cfg b1 ip tr nows
      in (r # rs, b2))"

section \<open>Rate limiting in the arithmetic of floats\<close>

text \<open>
  \<open>time.time()\<close> is a binary64 float, so \<open>now - bucket[0]\<close> and
  \<open>RATE_LIMIT_WINDOW - (now - bucket[0])\<close> are rounded subtractions, and the integer
  window is converted to a float before the second one. The comparison
  \<open>now - bucket[0] > RATE_LIMIT_WINDOW\<close> of a float with an integer is exact in Python.
  The two rounded operations are the fields of a record that the function takes as an
  argument; a float is the real number it denotes.
\<close>

record float_arith =
  fsub :: "real \<Rightarrow> real \<Rightarrow> real"
  fint :: "int \<Rightarrow> real"

text \<open>
  Rounding to binary64, to nearest with ties to even. \<open>binade x\<close> is the exponent
  \<open>e\<close> with \<open>2^e \<le> |x| < 2^(e+1)\<close>, found by halving or doubling and kept within
  the exponent range -1022 to 1023 of the format; \<open>ulp x\<close> is the spacing \<open>2^(e-52)\<close>
  of the floats of that binade. The result is the IEEE result whenever that is finite;
  overflow to infinity (magnitudes from \<open>2^1024\<close>) is outside the model.
\<close>

definition round_half_even :: "real \<Rightarrow> int" where
  "round_half_even x =
     (let f = \<lfloor>x\<rfloor>; d = x - of_int f
      in if d < 1 / 2 then f else if 1 / 2 < d then f + 1 else if even f then f else f + 1)"

fun halvings :: "nat \<Rightarrow> real \<Rightarrow> nat" where
  "halvings 0 x = 0"
| "halvings (Suc n) x = (if 2 \<le> x then Suc (halvings n (x / 2)) else 0)"

fun doublings :: "nat \<Rightarrow> real \<Rightarrow> nat" where
  "doublings 0 x = 0"
| "doublings (Suc n) x = (if x < 1 then Suc (doublings n (x * 2)) else 0)"

definition binade :: "real \<Rightarrow> int" where
  "binade x = (if 1 \<le> \<bar>x\<bar> then int (halvings 1023 \<bar>x\<bar>) else - int (doublings 1022 \<bar>x\<bar>))"

definition ulp :: "real \<Rightarrow> real" where
  "ulp x = (if 52 \<le> binade x then 2 ^ nat (binade x - 52) else 1 / 2 ^ nat (52 - binade x))"

definition round64 :: "real \<Rightarrow> real" where
  "round64 x = of_int (round_half_even (x / ulp x)) * ulp x"

text \<open>
  Binary64 subtraction and conversion round the exact result; \<open>exact_arith\<close> does not
  round at all.
\<close>

definition binary64 :: float_arith where
  "binary64 = \<lparr> fsub = (\<lambda>a b. round64 (a - b)), fint = (\<lambda>n. round64 (of_int n)) \<rparr>"

definition exact_arith :: float_arith where
  "exact_arith = \<lparr> fsub = (\<lambda>a b. a - b), fint = of_int \<rparr>"

text \<open>
  \<open>check_rate_limit\<close> once more, with every operation on floats taken from the record.
  With \<open>exact_arith\<close> it is the function of the previous section.
\<close>

fun prune_float :: "float_arith \<Rightarrow> int \<Rightarrow> real \<Rightarrow> real list \<Rightarrow> real list" where
  "prune_float ar w now [] = []"
| "prune_float ar w now (t # ts) =
     (if fsub ar now t > real_of_int w then prune_float ar w now ts else t # ts)"

definition check_rate_limit_float ::
  "float_arith \<Rightarrow> config \<Rightarrow> buckets \<Rightarrow> string \<Rightarrow> bool \<Rightarrow> real \<Rightarrow>
     (error + bool \<times> int option) \<times> buckets" where
  "check_rate_limit_float ar cfg rate_buckets ip is_trusted now =
     (let limit = (if is_trusted then TRUSTED_RATE_LIMIT cfg else PUBLIC_RATE_LIMIT cfg);
          rate_buckets1 = (if ip \<notin> dom rate_buckets then rate_buckets(ip \<mapsto> []) else rate_buckets);
          bucket = prune_float ar (RATE_LIMIT_WINDOW cfg) now (the (rate_buckets1 ip))
      in if int (length bucket) \<ge> limit then
           (case bucket of
              [] \<Rightarrow> (Inl IndexError, rate_buckets1(ip \<mapsto> bucket))
            | t0 # _ \<Rightarrow>
                (Inr (False, Some (py_int_of_float
                   (fsub ar (fint ar (RATE_LIMIT_WINDOW cfg)) (fsub ar now t0)))),
                 rate_buckets1(ip \<mapsto> bucket)))
         else (Inr (True, None), rate_buckets1(ip \<mapsto> bucket @ [now])))"

fun check_all_float ::
  "float_arith \<Rightarrow> config \<Rightarrow> buckets \<Rightarrow> string \<Rightarrow> bool \<Rightarrow> real list \<Rightarrow>
     (error + bool \<times> int option) list \<times> buckets" where
  "check_all_float ar cfg b ip tr [] = ([], b)"
| "check_all_float ar cfg b ip tr (now # nows) =
     (let (r, b1) = check_rate_limit_float ar cfg b ip tr now;
          (rs, b2) = check_all_float ar cfg b1 ip tr nows
      in (r # rs, b2))"

section \<open>Randomness\<close>

text \<open>
  The generator draws from Python's \<open>random\<close> module. The source of randomness is an
  infinite stream of raw draws; \<open>randbelow n\<close> consumes one draw and reduces it to
  \<open>{0..<n}\<close>, so every index below \<open>n\<close> is a possible outcome. \<open>choice\<close> and
  \<open>shuffle\<close> follow the standard library: \<open>choice\<close> raises IndexError on an empty
  sequence and otherwise returns \<open>seq[randbelow(len(seq))]\<close>; \<open>shuffle\<close> is
  \<^verbatim>\<open>for i in reversed(range(1, len(x))): j = randbelow(i + 1); x[i], x[j] = x[j], x[i]\<close>.
\<close>

type_synonym rng = "nat \<Rightarrow> nat"

definition randbelow :: "nat \<Rightarrow> rng \<Rightarrow> nat \<times> rng" where
  "randbelow n g = (g 0 mod n, \<lambda>i. g (Suc i))"

definition choice :: "'a list \<Rightarrow> rng \<Rightarrow> error + 'a \<times> rng" where
  "choice seq g =
     (if seq = [] then Inl IndexError
      else (let (i, g') = randbelow (length seq) g in Inr (seq ! i, g')))"

fun shuffle_loop :: "nat \<Rightarrow> 'a list \<Rightarrow> rng \<Rightarrow> 'a list \<times> rng" where
  "shuffle_loop 0 x g = (x, g)"
| "shuffle_loop (Suc k) x g =
     (let (j, g') = randbelow (Suc k + 1) g
      in shuffle_loop k (x[Suc k := x ! j, j := x ! Suc k]) g')"

definition shuffle :: "'a list \<Rightarrow> rng \<Rightarrow> 'a list \<times> rng" where
  "shuffle x g = shuffle_loop (length x - 1) x g"

section \<open>Password generation (app.py, \<open>generate_password\<close>)\<close>

text \<open>The alphabets of Python's \<open>string\<close> module.\<close>

definition ascii_lowercase :: string where
  "ascii_lowercase = ''abcdefghijklmnopqrstuvwxyz''"

definition ascii_uppercase :: string where
  "ascii_uppercase = ''ABCDEFGHIJKLMNOPQRSTUVWXYZ''"

definition digits :: string where
  "digits = ''0123456789''"

definition punctuation :: string where
  "punctuation =
     ''!'' @ [CHR 0x22] @ ''#$%&'' @ [CHR 0x27] @ ''()*+,-./:;<=>?@['' @ [CHR 0x5C] @
     '']^_'' @ [CHR 0x60] @ ''{|}~''"

text \<open>The string \<open>chars\<close> and the list \<open>required_groups\<close> built by the three \<open>if\<close>s.\<close>

definition chars_of :: "bool \<Rightarrow> bool \<Rightarrow> bool \<Rightarrow> string" where
  "chars_of upper nums special =
     ascii_lowercase @ (if upper then ascii_uppercase else []) @
     (if nums then digits else []) @ (if special then punctuation else [])"

definition required_groups_of :: "bool \<Rightarrow> bool \<Rightarrow> bool \<Rightarrow> string list" where
  "required_groups_of upper nums special =
     (if upper then [ascii_uppercase] else []) @
     (if nums then [digits] else []) @ (if special then [punctuation] else [])"

text \<open>\<open>for group in required_groups: password_chars.append(random.choice(group))\<close>\<close>

fun pick_required :: "string list \<Rightarrow> string \<Rightarrow> rng \<Rightarrow> error + string \<times> rng" where
  "pick_required [] password_chars g = Inr (password_chars, g)"
| "pick_required (grp # grps) password_chars g =
     (case choice grp g of
        Inl e \<Rightarrow> Inl e
      | Inr (c, g') \<Rightarrow> pick_required grps (password_chars @ [c]) g')"

text \<open>
  \<open>for _ in range(len(password_chars), length): password_chars.append(random.choice(chars))\<close>;
  the first argument is the number of iterations of the range.
\<close>

fun fill_remaining :: "nat \<Rightarrow> string \<Rightarrow> string \<Rightarrow> rng \<Rightarrow> error + string \<times> rng" where
  "fill_remaining 0 chars password_chars g = Inr (password_chars, g)"
| "fill_remaining (Suc k) chars password_chars g =
     (case choice chars g of
        Inl e \<Rightarrow> Inl e
      | Inr (c, g') \<Rightarrow> fill_remaining k chars (password_chars @ [c]) g')"

definition generate_password ::
  "int \<Rightarrow> bool \<Rightarrow> bool \<Rightarrow> bool \<Rightarrow> rng \<Rightarrow> error + string \<times> rng" where
  "generate_password len upper nums special g =
     (let chars = chars_of upper nums special;
          required_groups = required_groups_of upper nums special
      in if chars = [] then Inl (ValueError ''No character sets selected'')
         else
           (case pick_required required_groups [] g of
              Inl e \<Rightarrow> Inl e
            | Inr (pc1, g1) \<Rightarrow>
                (case fill_remaining (nat (len - int (length pc1))) chars pc1 g1 of
                   Inl e \<Rightarrow> Inl e
                 | Inr (pc2, g2) \<Rightarrow> Inr (shuffle pc2 g2))))"

text \<open>The number of enabled groups among upper, digits and special.\<close>

definition enabled_groups :: "bool \<Rightarrow> bool \<Rightarrow> bool \<Rightarrow> nat" where
  "enabled_groups upper nums special =
     (if upper then 1 else 0) + (if nums then 1 else 0) + (if special then 1 else 0)"

section \<open>The request handler (app.py, \<open>api_generate\<close>)\<close>

text \<open>
  A request carries the remote address and the query arguments. The application state
  is the two module-level dicts. Python's \<open>int\<close> on a query string is a parameter
  \<open>to_int\<close> of the handler (\<open>None\<close> stands for the ValueError it raises);
  \<open>str.lower\<close> is modelled on ASCII.
\<close>

record request =
  remote_addr :: "string option"
  args :: "string \<rightharpoonup> string"

record stats_rec =
  total_requests :: int
  total_passwords_generated :: int
  last_request_ts :: "real option"

record app_state =
  rate_buckets_of :: buckets
  stats_of :: stats_rec

datatype json =
    Passwords "string list"
  | ErrorMsg string
  | RateLimitError string "int option"

type_synonym response = "json \<times> nat"

definition lower_char :: "char \<Rightarrow> char" where
  "lower_char c =
     (let n = (of_char c :: nat) in if 65 \<le> n \<and> n \<le> 90 then char_of (n + 32) else c)"

definition lower :: "string \<Rightarrow> string" where
  "lower s = map lower_char s"

text \<open>\<open>request.args.get(key, "true").lower() == "true"\<close>\<close>

definition flag_arg :: "request \<Rightarrow> string \<Rightarrow> bool" where
  "flag_arg req key =
     (lower (case args req key of None \<Rightarrow> ''true'' | Some v \<Rightarrow> v) = ''true'')"

text \<open>\<open>int(request.args.get(key, dflt))\<close>; \<open>int\<close> of the integer default is the default.\<close>

definition int_arg :: "(string \<Rightarrow> int option) \<Rightarrow> request \<Rightarrow> string \<Rightarrow> int \<Rightarrow> int option" where
  "int_arg to_int req key dflt =
     (case args req key of None \<Rightarrow> Some dflt | Some v \<Rightarrow> to_int v)"

text \<open>
  \<open>[generate_password(length, upper, nums, special) for _ in range(count)]\<close>; the first
  argument is the number of iterations.
\<close>

fun generate_many ::
  "nat \<Rightarrow> int \<Rightarrow> bool \<Rightarrow> bool \<Rightarrow> bool \<Rightarrow> rng \<Rightarrow> error + string list \<times> rng" where
  "generate_many 0 len upper nums special g = Inr ([], g)"
| "generate_many (Suc k) len upper nums special g =
     (case generate_password len upper nums special g of
        Inl e \<Rightarrow> Inl e
      | Inr (p, g1) \<Rightarrow>
          (case generate_many k len upper nums special g1 of
             Inl e \<Rightarrow> Inl e
           | Inr (ps, g2) \<Rightarrow> Inr (p # ps, g2)))"

text \<open>
  The handler. \<open>now\<close> is the clock reading inside \<open>check_rate_limit\<close>, \<open>ts\<close> the one
  stored in the stats. The result is the response, or the exception that leaves the
  handler, with the state and the generator after the call. Logging is left out.
\<close>

text \<open>\<open>client_ip = request.remote_addr or "unknown"\<close>\<close>

definition client_ip_of :: "request \<Rightarrow> string" where
  "client_ip_of req =
     (case remote_addr req of None \<Rightarrow> ''unknown''
      | Some a \<Rightarrow> if a = [] then ''unknown'' else a)"

text \<open>\<open>is_trusted = request.args.get("api_key") == API_KEY\<close>\<close>

definition is_trusted_of :: "config \<Rightarrow> request \<Rightarrow> bool" where
  "is_trusted_of cfg req = (args req ''api_key'' = Some (API_KEY cfg))"

definition api_generate ::
  "(string \<Rightarrow> int option) \<Rightarrow> config \<Rightarrow> app_state \<Rightarrow> request \<Rightarrow> real \<Rightarrow> real \<Rightarrow> rng \<Rightarrow>
     (error + response) \<times> app_state \<times> rng" where
  "api_generate to_int cfg st req now ts g =
     (let client_ip = client_ip_of req;
          is_trusted = is_trusted_of cfg req;
          (r, b1) = check_rate_limit cfg (rate_buckets_of st) client_ip is_trusted now;
          st1 = st\<lparr>rate_buckets_of := b1\<rparr>
      in case r of
           Inl e \<Rightarrow> (Inl e, st1, g)
         | Inr (allowed, retry_after) \<Rightarrow>
             if \<not> allowed then
               (Inr (RateLimitError ''Rate limit exceeded'' retry_after, 429), st1, g)
             else
               (case int_arg to_int req ''length'' 16 of
                  None \<Rightarrow> (Inr (ErrorMsg ''Invalid length'', 400), st1, g)
                | Some len \<Rightarrow>
                    if \<not> (8 \<le> len \<and> len \<le> 128) then
                      (Inr (ErrorMsg ''Length must be between 8 and 128'', 400), st1, g)
                    else
                      (case int_arg to_int req ''count'' 1 of
                         None \<Rightarrow> (Inr (ErrorMsg ''Invalid count'', 400), st1, g)
                       | Some count0 \<Rightarrow>
                           (let count1 = (if count0 < 1 then 1 else count0);
                                count = (if count1 > 100 then 100 else count1);
                                upper = flag_arg req ''upper'';
                                nums = flag_arg req ''numbers'';
                                special = flag_arg req ''special''
                            in case generate_many (nat count) len upper nums special g of
                                 Inl (ValueError m) \<Rightarrow> (Inr (ErrorMsg m, 400), st1, g)
                               | Inl IndexError \<Rightarrow> (Inl IndexError, st1, g)
                               | Inr (passwords, g1) \<Rightarrow>
                                   (Inr (Passwords passwords, 200),
                                    st1\<lparr>stats_of :=
                                      \<lparr> total_requests = total_requests (stats_of st1) + 1,
                                        total_passwords_generated =
                                          total_passwords_generated (stats_of st1)
                                            + int (length passwords),
                                        last_request_ts = Some ts \<rparr>\<rparr>,
                                    g1)))))"

section \<open>Notions used in the statements\<close>

text \<open>
  The deque of a client as \<open>check_rate_limit\<close> sees it (a missing key is given an
  empty deque before anything is read), and the limit that applies to a call.
\<close>

definition bucket_of :: "buckets \<Rightarrow> string \<Rightarrow> real list" where
  "bucket_of b ip = (case b ip of None \<Rightarrow> [] | Some ts \<Rightarrow> ts)"

definition limit_of :: "config \<Rightarrow> bool \<Rightarrow> int" where
  "limit_of cfg is_trusted = (if is_trusted then TRUSTED_RATE_LIMIT cfg else PUBLIC_RATE_LIMIT cfg)"

text \<open>The settings of the source with the public limit lowered to 3, and to 1.\<close>

definition limit3_config :: config where
  "limit3_config = default_config\<lparr>PUBLIC_RATE_LIMIT := 3\<rparr>"

definition limit1_config :: config where
  "limit1_config = default_config\<lparr>PUBLIC_RATE_LIMIT := 1\<rparr>"

text \<open>A stream of draws that are all the same number.\<close>

definition constant_draws :: "nat \<Rightarrow> rng" where
  "constant_draws n = (\<lambda>i. n)"

text \<open>
  A state with no buckets and zeroed stats, a request from one address whose only query
  argument is \<open>count\<close>, and the two values of Python's \<open>int\<close> that these requests
  need (every other string is left unparsed).
\<close>

definition fresh_state :: app_state where
  "fresh_state =
     \<lparr> rate_buckets_of = Map.empty,
       stats_of = \<lparr> total_requests = 0, total_passwords_generated = 0,
                    last_request_ts = None \<rparr> \<rparr>"

definition count_request :: "string \<Rightarrow> request" where
  "count_request v = \<lparr> remote_addr = Some ''10.0.0.1'', args = [''count'' \<mapsto> v] \<rparr>"

definition to_int_sample :: "string \<Rightarrow> int option" where
  "to_int_sample s = (if s = ''250'' then Some 250 else if s = ''0'' then Some 0 else None)"

text \<open>The binary64 floats nearest to 0.1, 1.1, 2.1, 3.1 and 60.1, as exact fractions.\<close>

definition d0_1 :: real where "d0_1 = 3602879701896397 / 36028797018963968"

definition d1_1 :: real where "d1_1 = 2476979795053773 / 2251799813685248"

definition d2_1 :: real where "d2_1 = 4728779608739021 / 2251799813685248"

definition d3_1 :: real where "d3_1 = 6980579422424269 / 2251799813685248"

definition d60_1 :: real where "d60_1 = 8458323050155213 / 140737488355328"

section \<open>The sliding window: pruning and the frame of a call\<close>

lemma prune_dropWhile: "prune w now ts = dropWhile (\<lambda>t. now - t > real_of_int w) ts"
  by (induction ts) auto

lemma prune_suffix: "\<exists>dropped. ts = dropped @ prune w now ts"
  unfolding prune_dropWhile
  by (metis takeWhile_dropWhile_id)

lemma prune_length_le: "length (prune w now ts) \<le> length ts"
  unfolding prune_dropWhile by (rule length_dropWhile_le)

lemma prune_head: "prune w now ts = t0 # rest \<Longrightarrow> now - t0 \<le> real_of_int w"
  unfolding prune_dropWhile using hd_dropWhile [of "\<lambda>t. now - t > real_of_int w" ts]
  by fastforce

lemma check_rate_limit_unfold:
  "check_rate_limit cfg b ip tr now =
     (let bucket = prune (RATE_LIMIT_WINDOW cfg) now (bucket_of b ip)
      in if int (length bucket) \<ge> limit_of cfg tr then
           (case bucket of
              [] \<Rightarrow> (Inl IndexError, b(ip \<mapsto> bucket))
            | t0 # _ \<Rightarrow>
                (Inr (False, Some (py_int_of_float (real_of_int (RATE_LIMIT_WINDOW cfg) - (now - t0)))),
                 b(ip \<mapsto> bucket)))
         else (Inr (True, None), b(ip \<mapsto> bucket @ [now])))"
  by (cases "b ip") (auto simp: check_rate_limit_def bucket_of_def limit_of_def Let_def domIff split: list.splits)

lemma check_rate_limit_frame: "ip' \<noteq> ip \<Longrightarrow> snd (check_rate_limit cfg b ip tr now) ip' = b ip'"
  by (simp add: check_rate_limit_unfold Let_def split: list.splits)

lemma check_rate_limit_local:
  "b1 ip = b2 ip \<Longrightarrow>
   fst (check_rate_limit cfg b1 ip tr now) = fst (check_rate_limit cfg b2 ip tr now) \<and>
   snd (check_rate_limit cfg b1 ip tr now) ip = snd (check_rate_limit cfg b2 ip tr now) ip"
  by (simp add: check_rate_limit_unfold bucket_of_def Let_def split: list.splits)

lemma check_all_frame: "ip' \<noteq> ip \<Longrightarrow> snd (check_all cfg b ip tr nows) ip' = b ip'"
proof (induction nows arbitrary: b)
  case Nil
  then show ?case by simp
next
  case (Cons now nows)
  obtain r b1 where c: "check_rate_limit cfg b ip tr now = (r, b1)"
    by (cases "check_rate_limit cfg b ip tr now")
  from Cons.prems have "b1 ip' = b ip'"
    using check_rate_limit_frame [of ip' ip cfg b tr now] c by simp
  moreover have "snd (check_all cfg b1 ip tr nows) ip' = b1 ip'"
    using Cons.IH [OF Cons.prems] .
  ultimately show ?case
    using c by (simp add: split_beta)
qed

lemma check_rate_limit_rejected:
  assumes "check_rate_limit cfg b ip tr now = (Inr (False, r), b')"
  shows "\<exists>t0 rest. prune (RATE_LIMIT_WINDOW cfg) now (bucket_of b ip) = t0 # rest \<and>
           b' = b(ip \<mapsto> t0 # rest) \<and>
           r = Some \<lfloor>real_of_int (RATE_LIMIT_WINDOW cfg) - (now - t0)\<rfloor> \<and>
           0 \<le> real_of_int (RATE_LIMIT_WINDOW cfg) - (now - t0)"
proof -
  let ?bk = "prune (RATE_LIMIT_WINDOW cfg) now (bucket_of b ip)"
  from assms obtain t0 rest where bk: "?bk = t0 # rest"
    and b': "b' = b(ip \<mapsto> t0 # rest)"
    and r: "r = Some (py_int_of_float (real_of_int (RATE_LIMIT_WINDOW cfg) - (now - t0)))"
    by (auto simp: check_rate_limit_unfold Let_def split: if_splits list.splits)
  from prune_head [OF bk] have nn: "0 \<le> real_of_int (RATE_LIMIT_WINDOW cfg) - (now - t0)"
    by simp
  with r have "r = Some \<lfloor>real_of_int (RATE_LIMIT_WINDOW cfg) - (now - t0)\<rfloor>"
    by (simp add: py_int_of_float_def)
  with bk b' nn show ?thesis by blast
qed


lemma dropWhile_dropWhile_mono:
  "(\<And>x. P x \<Longrightarrow> Q x) \<Longrightarrow> dropWhile Q (dropWhile P xs) = dropWhile Q xs"
  by (induction xs) auto

lemma prune_prune_later:
  "now \<le> now' \<Longrightarrow> prune w now' (prune w now ts) = prune w now' ts"
  unfolding prune_dropWhile
  by (rule dropWhile_dropWhile_mono) simp

section \<open>The generator: draws, shuffling and the shape of a password\<close>

lemma randbelow_less: "0 < n \<Longrightarrow> fst (randbelow n g) < n"
  by (simp add: randbelow_def)

lemma choice_Inr:
  "seq \<noteq> [] \<Longrightarrow> \<exists>c g'. choice seq g = Inr (c, g') \<and> c \<in> set seq"
  by (simp add: choice_def randbelow_def)

lemma pick_required_Inr:
  "\<forall>grp\<in>set grps. grp \<noteq> [] \<Longrightarrow>
   \<exists>cs g'. pick_required grps acc g = Inr (acc @ cs, g') \<and>
            list_all2 (\<lambda>c grp. c \<in> set grp) cs grps"
proof (induction grps arbitrary: acc g)
  case Nil
  then show ?case by simp
next
  case (Cons grp grps)
  from Cons.prems have "grp \<noteq> []" by simp
  then obtain c g1 where c: "choice grp g = Inr (c, g1)" "c \<in> set grp"
    using choice_Inr by blast
  from Cons.prems have "\<forall>grp\<in>set grps. grp \<noteq> []" by simp
  from Cons.IH [OF this, of "acc @ [c]" g1]
  obtain cs g' where r: "pick_required grps (acc @ [c]) g1 = Inr ((acc @ [c]) @ cs, g')"
    and m: "list_all2 (\<lambda>c grp. c \<in> set grp) cs grps"
    by blast
  have "pick_required (grp # grps) acc g = Inr (acc @ (c # cs), g')"
    using c r by simp
  moreover have "list_all2 (\<lambda>c grp. c \<in> set grp) (c # cs) (grp # grps)"
    using c m by simp
  ultimately show ?case by blast
qed

lemma fill_remaining_Inr:
  "chars \<noteq> [] \<Longrightarrow>
   \<exists>cs g'. fill_remaining k chars acc g = Inr (acc @ cs, g') \<and>
            length cs = k \<and> set cs \<subseteq> set chars"
proof (induction k arbitrary: acc g)
  case 0
  then show ?case by simp
next
  case (Suc k)
  from Suc.prems obtain c g1 where c: "choice chars g = Inr (c, g1)" "c \<in> set chars"
    using choice_Inr by blast
  from Suc.IH [OF Suc.prems, of "acc @ [c]" g1]
  obtain cs g' where r: "fill_remaining k chars (acc @ [c]) g1 = Inr ((acc @ [c]) @ cs, g')"
    and m: "length cs = k" "set cs \<subseteq> set chars"
    by blast
  have "fill_remaining (Suc k) chars acc g = Inr (acc @ (c # cs), g')"
    using c r by simp
  moreover have "length (c # cs) = Suc k" "set (c # cs) \<subseteq> set chars"
    using c m by simp_all
  ultimately show ?case by blast
qed

lemma shuffle_loop_mset:
  "k \<le> length x - 1 \<Longrightarrow> mset (fst (shuffle_loop k x g)) = mset x"
proof (induction k arbitrary: x g)
  case 0
  then show ?case by simp
next
  case (Suc k)
  obtain j g1 where rb: "randbelow (Suc k + 1) g = (j, g1)"
    by (cases "randbelow (Suc k + 1) g")
  from Suc.prems have i: "Suc k < length x" by simp
  have "j < Suc k + 1"
    using randbelow_less [of "Suc k + 1" g] rb by simp
  with i have j: "j < length x" by simp
  let ?x' = "x[Suc k := x ! j, j := x ! Suc k]"
  have sw: "mset ?x' = mset x"
    using mset_swap [OF j i] .
  have "k \<le> length ?x' - 1" using i by simp
  from Suc.IH [OF this, of g1] sw
  have "mset (fst (shuffle_loop k ?x' g1)) = mset x" by simp
  then show ?case using rb by simp
qed

lemma shuffle_mset: "mset (fst (shuffle x g)) = mset x"
  by (simp add: shuffle_def shuffle_loop_mset)

lemma chars_of_nonempty: "chars_of upper nums special \<noteq> []"
  by (simp add: chars_of_def ascii_lowercase_def)

lemma required_groups_nonempty: "\<forall>grp\<in>set (required_groups_of upper nums special). grp \<noteq> []"
  by (auto simp: required_groups_of_def ascii_uppercase_def digits_def punctuation_def)

lemma length_required_groups:
  "length (required_groups_of upper nums special) = enabled_groups upper nums special"
  by (simp add: required_groups_of_def enabled_groups_def)

lemma generate_password_shape:
  "\<exists>rs fs pw g'.
     generate_password len upper nums special g = Inr (pw, g') \<and>
     mset pw = mset (rs @ fs) \<and>
     list_all2 (\<lambda>c grp. c \<in> set grp) rs (required_groups_of upper nums special) \<and>
     length fs = nat (len - int (enabled_groups upper nums special)) \<and>
     set fs \<subseteq> set (chars_of upper nums special)"
proof -
  let ?chars = "chars_of upper nums special"
  let ?groups = "required_groups_of upper nums special"
  obtain rs g1 where p: "pick_required ?groups [] g = Inr (rs, g1)"
    and rs: "list_all2 (\<lambda>c grp. c \<in> set grp) rs ?groups"
    using pick_required_Inr [OF required_groups_nonempty, of upper nums special "[]" g]
    by auto
  have lrs: "length rs = enabled_groups upper nums special"
    using list_all2_lengthD [OF rs] by (simp add: length_required_groups)
  obtain fs g2 where f: "fill_remaining (nat (len - int (length rs))) ?chars rs g1 = Inr (rs @ fs, g2)"
    and fs: "length fs = nat (len - int (length rs))" "set fs \<subseteq> set ?chars"
    using fill_remaining_Inr [OF chars_of_nonempty] by blast
  obtain pw g' where s: "shuffle (rs @ fs) g2 = (pw, g')"
    by (cases "shuffle (rs @ fs) g2")
  have m: "mset pw = mset (rs @ fs)"
    using shuffle_mset [of "rs @ fs" g2] s by simp
  have "generate_password len upper nums special g = Inr (pw, g')"
    using p f s by (simp add: generate_password_def chars_of_nonempty)
  with m rs fs lrs show ?thesis by metis
qed

lemma generate_password_length:
  "\<exists>pw g'. generate_password len upper nums special g = Inr (pw, g') \<and>
           int (length pw) = max len (int (enabled_groups upper nums special))"
proof -
  obtain rs fs pw g' where gp: "generate_password len upper nums special g = Inr (pw, g')"
    and m: "mset pw = mset (rs @ fs)"
    and rs: "list_all2 (\<lambda>c grp. c \<in> set grp) rs (required_groups_of upper nums special)"
    and fs: "length fs = nat (len - int (enabled_groups upper nums special))"
    using generate_password_shape by blast
  have "length pw = length (rs @ fs)"
    using m by (metis size_mset)
  moreover have "length rs = enabled_groups upper nums special"
    using list_all2_lengthD [OF rs] by (simp add: length_required_groups)
  ultimately have "int (length pw) = max len (int (enabled_groups upper nums special))"
    using fs by simp
  with gp show ?thesis by blast
qed


lemma required_member:
  assumes "list_all2 (\<lambda>c grp. c \<in> set grp) rs grps" and "grp \<in> set grps"
  shows "\<exists>c\<in>set rs. c \<in> set grp"
proof -
  from assms(2) obtain i where i: "i < length grps" "grps ! i = grp"
    by (auto simp: in_set_conv_nth)
  with assms(1) have "rs ! i \<in> set grp" "i < length rs"
    by (auto simp: list_all2_conv_all_nth)
  then show ?thesis by (metis nth_mem)
qed

lemma lowercase_only: "set (chars_of False False False) = set ascii_lowercase"
  by (simp add: chars_of_def)

lemma generate_many_Inr:
  "\<exists>ps g'. generate_many k len upper nums special g = Inr (ps, g') \<and> length ps = k \<and>
     (\<forall>p\<in>set ps. int (length p) = max len (int (enabled_groups upper nums special)))"
proof (induction k arbitrary: g)
  case 0
  then show ?case by simp
next
  case (Suc k)
  obtain p g1 where p: "generate_password len upper nums special g = Inr (p, g1)"
    "int (length p) = max len (int (enabled_groups upper nums special))"
    using generate_password_length by blast
  from Suc.IH [of g1] obtain ps g2 where
    ps: "generate_many k len upper nums special g1 = Inr (ps, g2)" "length ps = k"
      "\<forall>p\<in>set ps. int (length p) = max len (int (enabled_groups upper nums special))"
    by blast
  have "generate_many (Suc k) len upper nums special g = Inr (p # ps, g2)"
    using p ps by simp
  moreover have "length (p # ps) = Suc k"
    using ps by simp
  moreover have "\<forall>q\<in>set (p # ps). int (length q) = max len (int (enabled_groups upper nums special))"
    using p ps by simp
  ultimately show ?case by blast
qed

text \<open>With constant draws every choice takes the same index, and shuffling a list of equal
  characters changes nothing.\<close>

lemma choice_constant_draws:
  "seq \<noteq> [] \<Longrightarrow>
   choice seq (constant_draws n) = Inr (seq ! (n mod length seq), constant_draws n)"
  by (simp add: choice_def randbelow_def constant_draws_def)

lemma fill_remaining_constant_draws:
  "chars \<noteq> [] \<Longrightarrow>
   fill_remaining k chars acc (constant_draws n)
     = Inr (acc @ replicate k (chars ! (n mod length chars)), constant_draws n)"
proof (induction k arbitrary: acc)
  case 0
  then show ?case by simp
next
  case (Suc k)
  from Suc.IH [OF Suc.prems, of "acc @ [chars ! (n mod length chars)]"] Suc.prems
  show ?case
    by (simp add: choice_constant_draws replicate_app_Cons_same)
qed

lemma shuffle_loop_replicate:
  "k < m \<Longrightarrow> fst (shuffle_loop k (replicate m c) g) = replicate m c"
proof (induction k arbitrary: g)
  case 0
  then show ?case by simp
next
  case (Suc k)
  obtain j g1 where rb: "randbelow (Suc k + 1) g = (j, g1)"
    by (cases "randbelow (Suc k + 1) g")
  have "j < Suc k + 1"
    using randbelow_less [of "Suc k + 1" g] rb by simp
  with Suc.prems have j: "j < m" by simp
  have "(replicate m c)[Suc k := replicate m c ! j, j := replicate m c ! Suc k] = replicate m c"
    using j Suc.prems by (simp add: list_eq_iff_nth_eq nth_list_update)
  moreover have "fst (shuffle_loop k (replicate m c) g1) = replicate m c"
    using Suc.IH [of g1] Suc.prems by simp
  ultimately show ?case using rb by simp
qed

section \<open>Binary64 rounding\<close>

text \<open>
  A rounded non-negative number is not negative, integers below \<open>2^53\<close> in magnitude
  are not changed, and \<open>round64\<close> can be computed once the binade is known.
\<close>

lemma round_half_even_of_int: "round_half_even (of_int m) = m"
  by (simp add: round_half_even_def)

lemma round_half_even_nonneg: "0 \<le> x \<Longrightarrow> 0 \<le> round_half_even x"
  by (auto simp: round_half_even_def Let_def)

lemma ulp_pos: "0 < ulp x"
  by (simp add: ulp_def)

lemma round64_zero: "round64 0 = 0"
  by (simp add: round64_def round_half_even_def)

lemma round64_nonneg: "0 \<le> x \<Longrightarrow> 0 \<le> round64 x"
  unfolding round64_def
  using round_half_even_nonneg [of "x / ulp x"] ulp_pos [of x]
  by (simp add: divide_nonneg_pos)

lemma halvings_eq:
  "2 ^ k \<le> x \<Longrightarrow> x < 2 * 2 ^ k \<Longrightarrow> k \<le> n \<Longrightarrow> halvings n x = k"
proof (induction n arbitrary: x k)
  case 0
  then show ?case by simp
next
  case (Suc n)
  show ?case
  proof (cases k)
    case 0
    with Suc.prems show ?thesis by simp
  next
    case (Suc j)
    have "(1::real) \<le> 2 ^ j" by simp
    moreover have "2 * 2 ^ j \<le> x"
      using Suc.prems(1) Suc by simp
    ultimately have "2 \<le> x" by linarith
    moreover have "halvings n (x / 2) = j"
      using Suc.IH [of j "x / 2"] Suc.prems Suc by simp
    ultimately show ?thesis using Suc by simp
  qed
qed

lemma binade_eq:
  "2 ^ k \<le> \<bar>x\<bar> \<Longrightarrow> \<bar>x\<bar> < 2 * 2 ^ k \<Longrightarrow> k \<le> 1023 \<Longrightarrow> binade x = int k"
proof -
  assume a: "2 ^ k \<le> \<bar>x\<bar>" "\<bar>x\<bar> < 2 * 2 ^ k" "k \<le> 1023"
  have "(1::real) \<le> 2 ^ k" by simp
  with a(1) have "1 \<le> \<bar>x\<bar>" by linarith
  moreover have "halvings 1023 \<bar>x\<bar> = k"
    using halvings_eq [OF a(1,2)] a(3) by simp
  ultimately show ?thesis by (simp add: binade_def)
qed

lemma round64_eval:
  assumes "2 ^ k \<le> \<bar>x\<bar>" and "\<bar>x\<bar> < 2 * 2 ^ k" and "k \<le> 52"
  shows "round64 x = of_int (round_half_even (x * 2 ^ (52 - k))) / 2 ^ (52 - k)"
proof -
  have b: "binade x = int k"
    using binade_eq [OF assms(1,2)] assms(3) by simp
  show ?thesis
  proof (cases "k = 52")
    case True
    with b show ?thesis by (simp add: round64_def ulp_def)
  next
    case False
    with assms(3) have "k < 52" by simp
    with b have "ulp x = 1 / 2 ^ (52 - k)"
      by (simp add: ulp_def nat_diff_distrib')
    then show ?thesis by (simp add: round64_def)
  qed
qed

lemma exists_binade: "1 \<le> (x::real) \<Longrightarrow> \<exists>k. 2 ^ k \<le> x \<and> x < 2 * 2 ^ k"
proof -
  assume x: "1 \<le> x"
  obtain n where n: "x < 2 ^ n"
    using real_arch_pow [of 2 x] by auto
  let ?k = "LEAST n. x < 2 ^ n"
  have lt: "x < 2 ^ ?k" using n by (rule LeastI)
  have "?k \<noteq> 0" using lt x by (cases "?k = 0") auto
  then obtain j where j: "?k = Suc j" by (cases ?k) auto
  have "\<not> x < 2 ^ j"
    using not_less_Least [of j "\<lambda>n. x < 2 ^ n"] j by simp
  with lt j show ?thesis by (intro exI [of _ j]) simp
qed

lemma round64_int:
  assumes "x \<in> \<int>" and "\<bar>x\<bar> < 2 ^ 53"
  shows "round64 x = x"
proof (cases "x = 0")
  case True
  then show ?thesis by (simp add: round64_zero)
next
  case False
  from assms(1) obtain m where m: "x = of_int m"
    by (auto elim: Ints_cases)
  with False have "1 \<le> \<bar>x\<bar>"
    by (simp flip: of_int_abs)
  then obtain k where k: "2 ^ k \<le> \<bar>x\<bar>" "\<bar>x\<bar> < 2 * 2 ^ k"
    using exists_binade by blast
  have "k \<le> 52"
  proof (rule ccontr)
    assume "\<not> k \<le> 52"
    then have "53 \<le> k" by simp
    then have "(2::real) ^ 53 \<le> 2 ^ k"
      by (intro power_increasing) simp_all
    with k(1) assms(2) show False by simp
  qed
  have "x * 2 ^ (52 - k) = of_int (m * 2 ^ (52 - k))"
    using m by simp
  then have "round_half_even (x * 2 ^ (52 - k)) = m * 2 ^ (52 - k)"
    using round_half_even_of_int by presburger
  then show ?thesis
    using round64_eval [OF k \<open>k \<le> 52\<close>] m by simp
qed

lemma doublings_eq:
  "1 \<le> x * 2 ^ j \<Longrightarrow> x * 2 ^ j < 2 \<Longrightarrow> j \<le> n \<Longrightarrow> doublings n x = j"
proof (induction n arbitrary: x j)
  case 0
  then show ?case by simp
next
  case (Suc n)
  show ?case
  proof (cases j)
    case 0
    with Suc.prems show ?thesis by simp
  next
    case (Suc i)
    have p: "(1::real) \<le> 2 ^ i" by simp
    from Suc.prems(1) have "0 < x"
      by (smt (verit) mult_nonpos_nonneg zero_le_power)
    have "x * 2 ^ i < 1"
      using Suc.prems(2) Suc by simp
    moreover have "x \<le> x * 2 ^ i"
      using p \<open>0 < x\<close> by simp
    ultimately have "x < 1" by linarith
    moreover have "doublings n (x * 2) = i"
      using Suc.IH [of "x * 2" i] Suc.prems Suc by (simp add: mult.assoc)
    ultimately show ?thesis using Suc by simp
  qed
qed

lemma round64_eval_small:
  assumes "1 \<le> \<bar>x\<bar> * 2 ^ j" and "\<bar>x\<bar> * 2 ^ j < 2" and "0 < j" and "j \<le> 1022"
  shows "round64 x = of_int (round_half_even (x * 2 ^ (52 + j))) / 2 ^ (52 + j)"
proof -
  have p: "(2::real) \<le> 2 ^ j"
    using assms(3) power_increasing [of 1 j "2::real"] by simp
  have "\<bar>x\<bar> * 2 \<le> \<bar>x\<bar> * 2 ^ j"
    using p by (intro mult_left_mono) simp_all
  with assms(2) have "\<not> 1 \<le> \<bar>x\<bar>" by linarith
  moreover have "doublings 1022 \<bar>x\<bar> = j"
    using doublings_eq [OF assms(1,2,4)] .
  ultimately have "binade x = - int j"
    by (simp add: binade_def)
  then have "ulp x = 1 / 2 ^ (52 + j)"
    by (simp add: ulp_def nat_add_distrib)
  then show ?thesis by (simp add: round64_def)
qed

lemma binary64_sign: "y \<le> x \<Longrightarrow> 0 \<le> fsub binary64 x y"
  by (simp add: binary64_def round64_nonneg)

lemma binary64_fint_exact: "\<bar>n\<bar> < 2 ^ 53 \<Longrightarrow> fint binary64 n = of_int n"
proof -
  assume "\<bar>n\<bar> < 2 ^ 53"
  then have "\<bar>real_of_int n\<bar> < 2 ^ 53"
    by (metis of_int_abs of_int_less_numeral_power_cancel_iff)
  then show ?thesis
    by (simp add: binary64_def round64_int)
qed

lemma binary64_fsub_int:
  "x \<in> \<int> \<Longrightarrow> y \<in> \<int> \<Longrightarrow> \<bar>x - y\<bar> < 2 ^ 53 \<Longrightarrow> fsub binary64 x y = x - y"
  by (simp add: binary64_def round64_int)

lemma prune_float_dropWhile:
  "prune_float ar w now ts = dropWhile (\<lambda>t. real_of_int w < fsub ar now t) ts"
  by (induction ts) auto

lemma prune_float_exact: "prune_float exact_arith w now ts = prune w now ts"
  by (induction ts) (auto simp: exact_arith_def)

lemma check_rate_limit_float_unfold:
  "check_rate_limit_float ar cfg b ip tr now =
     (let bucket = prune_float ar (RATE_LIMIT_WINDOW cfg) now (bucket_of b ip)
      in if int (length bucket) \<ge> limit_of cfg tr then
           (case bucket of
              [] \<Rightarrow> (Inl IndexError, b(ip \<mapsto> bucket))
            | t0 # _ \<Rightarrow>
                (Inr (False, Some (py_int_of_float
                   (fsub ar (fint ar (RATE_LIMIT_WINDOW cfg)) (fsub ar now t0)))),
                 b(ip \<mapsto> bucket)))
         else (Inr (True, None), b(ip \<mapsto> bucket @ [now])))"
  by (cases "b ip")
    (auto simp: check_rate_limit_float_def bucket_of_def limit_of_def Let_def domIff
      split: list.splits)

lemma check_rate_limit_float_exact:
  "check_rate_limit_float exact_arith cfg b ip tr now = check_rate_limit cfg b ip tr now"
  unfolding check_rate_limit_float_unfold check_rate_limit_unfold prune_float_exact
  by (simp add: exact_arith_def Let_def split: list.splits)

lemma prune_float_head:
  "prune_float ar w now ts = t0 # rest \<Longrightarrow> fsub ar now t0 \<le> real_of_int w"
  unfolding prune_float_dropWhile
  using hd_dropWhile [of "\<lambda>t. real_of_int w < fsub ar now t" ts]
  by fastforce

lemma prune_float_keeps:
  "t \<in> set ts \<Longrightarrow> fsub ar now t \<le> real_of_int w \<Longrightarrow> t \<in> set (prune_float ar w now ts)"
  by (induction ts) auto

lemma check_rate_limit_float_rejected:
  assumes "check_rate_limit_float ar cfg b ip tr now = (Inr (False, r), b')"
  shows "\<exists>t0 rest. prune_float ar (RATE_LIMIT_WINDOW cfg) now (bucket_of b ip) = t0 # rest \<and>
           b' = b(ip \<mapsto> t0 # rest) \<and>
           r = Some (py_int_of_float
                 (fsub ar (fint ar (RATE_LIMIT_WINDOW cfg)) (fsub ar now t0))) \<and>
           fsub ar now t0 \<le> real_of_int (RATE_LIMIT_WINDOW cfg)"
proof -
  let ?bk = "prune_float ar (RATE_LIMIT_WINDOW cfg) now (bucket_of b ip)"
  from assms obtain t0 rest where bk: "?bk = t0 # rest"
    and b': "b' = b(ip \<mapsto> t0 # rest)"
    and r: "r = Some (py_int_of_float
                 (fsub ar (fint ar (RATE_LIMIT_WINDOW cfg)) (fsub ar now t0)))"
    by (auto simp: check_rate_limit_float_unfold Let_def split: if_splits list.splits)
  from prune_float_head [OF bk] bk b' r show ?thesis by blast
qed

lemma sub64_d3_1_d0_1: "fsub binary64 d3_1 d0_1 = 3"
proof -
  have d: "d3_1 - d0_1 = 108086391056891907 / 36028797018963968"
    by (simp add: d3_1_def d0_1_def)
  have r: "round64 (108086391056891907 / 36028797018963968) = 3"
    using round64_eval [of 1 "108086391056891907 / 36028797018963968"]
    by (simp add: round_half_even_def)
  have "fsub binary64 d3_1 d0_1 = round64 (d3_1 - d0_1)"
    by (simp add: binary64_def)
  also have "\<dots> = round64 (108086391056891907 / 36028797018963968)"
    by (simp only: d)
  also have "\<dots> = 3"
    by (rule r)
  finally show ?thesis .
qed

lemma sub64_d60_1_d0_1: "fsub binary64 d60_1 d0_1 = 60"
proof -
  have d: "d60_1 - d0_1 = 2161727821137838131 / 36028797018963968"
    by (simp add: d60_1_def d0_1_def)
  have r: "round64 (2161727821137838131 / 36028797018963968) = 60"
    using round64_eval [of 5 "2161727821137838131 / 36028797018963968"]
    by (simp add: round_half_even_def)
  have "fsub binary64 d60_1 d0_1 = round64 (d60_1 - d0_1)"
    by (simp add: binary64_def)
  also have "\<dots> = round64 (2161727821137838131 / 36028797018963968)"
    by (simp only: d)
  also have "\<dots> = 60"
    by (rule r)
  finally show ?thesis .
qed

lemma round64_half: "round64 (1 / 2) = 1 / 2"
  using round64_eval_small [of "1 / 2" 1] by (simp add: round_half_even_def)

lemma round64_119_half: "round64 (119 / 2) = 119 / 2"
  using round64_eval [of 5 "119 / 2"] by (simp add: round_half_even_def)

lemmas binary64_eval =
  binary64_def round64_int round64_zero check_rate_limit_float_def py_int_of_float_def
  limit3_config_def limit1_config_def default_config_def

section \<open>Claims about the rate limiter\<close>

text \<open>
  Claim C1, as the code has it. With a window of 60 seconds and a limit of 3, in binary64
  arithmetic, the calls of client \<open>A\<close> at the instants 0, 1 and 2 are admitted, the
  call at 3 is rejected with a retry-after of 57 seconds, and the call at 61 is admitted.
  In general, whatever the rounding of the float operations, a rejected call returns
  \<open>int(RATE_LIMIT_WINDOW - (now - bucket[0]))\<close>: the float the code computes from the
  oldest timestamp left after pruning, truncated towards zero, with no ceiling, no added
  second and no clamp. When a float subtraction of a smaller from a larger number is
  never negative and the window converts to a float exactly (both hold for binary64 and
  a window of 60), that float is not negative, so the result is its floor and is at
  least 0.
\<close>

theorem check_rate_limit_float_retry_after:
  "fst (check_all_float binary64 limit3_config Map.empty ''A'' False [0, 1, 2, 3, 61]) =
     [Inr (True, None), Inr (True, None), Inr (True, None), Inr (False, Some 57),
      Inr (True, None)] \<and>
   (check_rate_limit_float ar cfg b ip tr now = (Inr (False, r), b') \<longrightarrow>
      (\<exists>oldest rest.
         b' ip = Some (oldest # rest) \<and>
         r = Some (py_int_of_float
               (fsub ar (fint ar (RATE_LIMIT_WINDOW cfg)) (fsub ar now oldest))) \<and>
         ((\<forall>x y. y \<le> x \<longrightarrow> 0 \<le> fsub ar x y) \<and>
          fint ar (RATE_LIMIT_WINDOW cfg) = real_of_int (RATE_LIMIT_WINDOW cfg) \<longrightarrow>
            r = Some \<lfloor>fsub ar (fint ar (RATE_LIMIT_WINDOW cfg)) (fsub ar now oldest)\<rfloor> \<and>
            0 \<le> \<lfloor>fsub ar (fint ar (RATE_LIMIT_WINDOW cfg)) (fsub ar now oldest)\<rfloor>)))"
proof
  show "fst (check_all_float binary64 limit3_config Map.empty ''A'' False [0, 1, 2, 3, 61]) =
     [Inr (True, None), Inr (True, None), Inr (True, None), Inr (False, Some 57),
      Inr (True, None)]"
    by (simp add: binary64_eval)
next
  let ?W = "RATE_LIMIT_WINDOW cfg"
  show "check_rate_limit_float ar cfg b ip tr now = (Inr (False, r), b') \<longrightarrow>
      (\<exists>oldest rest.
         b' ip = Some (oldest # rest) \<and>
         r = Some (py_int_of_float (fsub ar (fint ar ?W) (fsub ar now oldest))) \<and>
         ((\<forall>x y. y \<le> x \<longrightarrow> 0 \<le> fsub ar x y) \<and> fint ar ?W = real_of_int ?W \<longrightarrow>
            r = Some \<lfloor>fsub ar (fint ar ?W) (fsub ar now oldest)\<rfloor> \<and>
            0 \<le> \<lfloor>fsub ar (fint ar ?W) (fsub ar now oldest)\<rfloor>))"
  proof
    assume "check_rate_limit_float ar cfg b ip tr now = (Inr (False, r), b')"
    from check_rate_limit_float_rejected [OF this]
    obtain t0 rest where b': "b' = b(ip \<mapsto> t0 # rest)"
      and r: "r = Some (py_int_of_float (fsub ar (fint ar ?W) (fsub ar now t0)))"
      and le: "fsub ar now t0 \<le> real_of_int ?W"
      by blast
    have fl: "r = Some \<lfloor>fsub ar (fint ar ?W) (fsub ar now t0)\<rfloor> \<and>
            0 \<le> \<lfloor>fsub ar (fint ar ?W) (fsub ar now t0)\<rfloor>"
      if "(\<forall>x y. y \<le> x \<longrightarrow> 0 \<le> fsub ar x y) \<and> fint ar ?W = real_of_int ?W"
    proof -
      from that le have "0 \<le> fsub ar (fint ar ?W) (fsub ar now t0)"
        by simp
      with r show ?thesis by (simp add: py_int_of_float_def)
    qed
    from b' have "b' ip = Some (t0 # rest)" by simp
    with r fl show "\<exists>oldest rest.
         b' ip = Some (oldest # rest) \<and>
         r = Some (py_int_of_float (fsub ar (fint ar ?W) (fsub ar now oldest))) \<and>
         ((\<forall>x y. y \<le> x \<longrightarrow> 0 \<le> fsub ar x y) \<and> fint ar ?W = real_of_int ?W \<longrightarrow>
            r = Some \<lfloor>fsub ar (fint ar ?W) (fsub ar now oldest)\<rfloor> \<and>
            0 \<le> \<lfloor>fsub ar (fint ar ?W) (fsub ar now oldest)\<rfloor>)"
      by blast
  qed
qed

text \<open>
  The general part of C1 at a rejected call whose subtraction rounds: the floats nearest
  to 0.1, 1.1 and 2.1 are stored and the clock reads the float nearest to 3.1. Their
  exact difference is a little above 3 and rounds to 3, so the retry-after is 57.
\<close>

theorem check_rate_limit_float_retry_after_witness:
  "check_rate_limit_float binary64 limit3_config [''A'' \<mapsto> [d0_1, d1_1, d2_1]] ''A'' False d3_1
     = (Inr (False, Some 57), [''A'' \<mapsto> [d0_1, d1_1, d2_1]]) \<and>
   fint binary64 (RATE_LIMIT_WINDOW limit3_config) = real_of_int (RATE_LIMIT_WINDOW limit3_config) \<and>
   fsub binary64 d3_1 d0_1 = 3 \<and>
   (\<exists>oldest rest.
      [''A'' \<mapsto> [d0_1, d1_1, d2_1]] ''A'' = Some (oldest # rest) \<and>
      Some (57 :: int) = Some \<lfloor>fsub binary64 (fint binary64 (RATE_LIMIT_WINDOW limit3_config))
                                 (fsub binary64 d3_1 oldest)\<rfloor> \<and>
      0 \<le> \<lfloor>fsub binary64 (fint binary64 (RATE_LIMIT_WINDOW limit3_config))
                 (fsub binary64 d3_1 oldest)\<rfloor>)"
proof -
  have h: "check_rate_limit_float binary64 limit3_config [''A'' \<mapsto> [d0_1, d1_1, d2_1]] ''A'' False d3_1
     = (Inr (False, Some 57), [''A'' \<mapsto> [d0_1, d1_1, d2_1]])"
    using sub64_d3_1_d0_1
    by (simp add: check_rate_limit_float_def py_int_of_float_def limit3_config_def
        default_config_def binary64_def round64_int)
  have s: "\<forall>x y. y \<le> x \<longrightarrow> 0 \<le> fsub binary64 x y"
    using binary64_sign by blast
  have e: "fint binary64 (RATE_LIMIT_WINDOW limit3_config)
             = real_of_int (RATE_LIMIT_WINDOW limit3_config)"
    by (simp add: binary64_fint_exact limit3_config_def default_config_def)
  from check_rate_limit_float_retry_after [of binary64 limit3_config
      "[''A'' \<mapsto> [d0_1, d1_1, d2_1]]" "''A''" False d3_1 "Some 57" "[''A'' \<mapsto> [d0_1, d1_1, d2_1]]"]
    h s e sub64_d3_1_d0_1
  show ?thesis by blast
qed

text \<open>
  C1 as the specification words it fails: the fourth call of the scenario returns 57 and
  not 58, and at a clock reading of half a second the retry-after is 59 although the
  ceiling of the remaining time is 60.
\<close>

theorem check_rate_limit_float_retry_after_counterexample:
  "fst (check_rate_limit_float binary64 limit3_config
          (snd (check_all_float binary64 limit3_config Map.empty ''A'' False [0, 1, 2])) ''A'' False 3)
     = Inr (False, Some 57) \<and>
   fst (check_rate_limit_float binary64 limit3_config
          (snd (check_all_float binary64 limit3_config Map.empty ''A'' False [0, 1, 2])) ''A'' False 3)
     \<noteq> Inr (False, Some 58) \<and>
   fst (check_rate_limit_float binary64 limit1_config [''A'' \<mapsto> [0]] ''A'' False (1 / 2))
     = Inr (False, Some 59) \<and>
   \<lceil>real_of_int (RATE_LIMIT_WINDOW limit1_config) - (1 / 2 - 0)\<rceil> = 60"
proof -
  have a: "fst (check_rate_limit_float binary64 limit3_config
          (snd (check_all_float binary64 limit3_config Map.empty ''A'' False [0, 1, 2])) ''A'' False 3)
     = Inr (False, Some 57)"
    by (simp add: binary64_eval)
  have b: "fst (check_rate_limit_float binary64 limit1_config [''A'' \<mapsto> [0]] ''A'' False (1 / 2))
     = Inr (False, Some 59)"
    by (simp add: binary64_eval round64_half round64_119_half)
  have c: "\<lceil>real_of_int (RATE_LIMIT_WINDOW limit1_config) - (1 / 2 - 0)\<rceil> = 60"
    by (simp add: limit1_config_def default_config_def)
  from a b c show ?thesis by simp
qed

text \<open>
  Claim C2, as the code has it. The loop pops the leading timestamps while
  \<open>now - bucket[0] > RATE_LIMIT_WINDOW\<close> and stops at the first one that fails the
  test. Whatever the rounding of the subtraction and whatever the order of the deque,
  the call is admitted exactly when fewer timestamps than the limit are left after that
  trim, and every stored timestamp whose computed age \<open>now - t\<close> is at most the window,
  in particular one whose age is exactly the window, is still stored (and counted) after
  the call.
\<close>

theorem check_rate_limit_float_boundary:
  "(fst (check_rate_limit_float ar cfg b ip tr now) = Inr (True, None)) =
     (int (length (dropWhile (\<lambda>t. real_of_int (RATE_LIMIT_WINDOW cfg) < fsub ar now t)
        (bucket_of b ip))) < limit_of cfg tr) \<and>
   (\<forall>t\<in>set (bucket_of b ip).
      fsub ar now t \<le> real_of_int (RATE_LIMIT_WINDOW cfg) \<longrightarrow>
        t \<in> set (bucket_of (snd (check_rate_limit_float ar cfg b ip tr now)) ip)) \<and>
   (\<forall>t\<in>set (bucket_of b ip).
      fsub ar now t = real_of_int (RATE_LIMIT_WINDOW cfg) \<longrightarrow>
        t \<in> set (bucket_of (snd (check_rate_limit_float ar cfg b ip tr now)) ip))"
proof -
  let ?W = "RATE_LIMIT_WINDOW cfg"
  let ?bk = "prune_float ar ?W now (bucket_of b ip)"
  have d: "(fst (check_rate_limit_float ar cfg b ip tr now) = Inr (True, None)) =
     (int (length (dropWhile (\<lambda>t. real_of_int ?W < fsub ar now t) (bucket_of b ip)))
        < limit_of cfg tr)"
    unfolding check_rate_limit_float_unfold prune_float_dropWhile
    by (simp add: Let_def split: list.splits)
  have s: "bucket_of (snd (check_rate_limit_float ar cfg b ip tr now)) ip = ?bk \<or>
           bucket_of (snd (check_rate_limit_float ar cfg b ip tr now)) ip = ?bk @ [now]"
    unfolding check_rate_limit_float_unfold
    by (simp add: Let_def bucket_of_def split: list.splits)
  have k: "t \<in> set (bucket_of (snd (check_rate_limit_float ar cfg b ip tr now)) ip)"
    if "t \<in> set (bucket_of b ip)" "fsub ar now t \<le> real_of_int ?W" for t
    using prune_float_keeps [OF that] s by auto
  from d k show ?thesis by simp
qed

text \<open>
  C2 at a call where the boundary is met only after rounding: the float nearest to 0.1
  is stored, the clock reads the float nearest to 60.1 and the limit is 1. The computed
  age is exactly 60, the timestamp stays and the call is rejected.
\<close>

theorem check_rate_limit_float_boundary_witness:
  "d0_1 \<in> set (bucket_of [''A'' \<mapsto> [d0_1]] ''A'') \<and>
   fsub binary64 d60_1 d0_1 = real_of_int (RATE_LIMIT_WINDOW limit1_config) \<and>
   d0_1 \<in> set (bucket_of (snd (check_rate_limit_float binary64 limit1_config
                                   [''A'' \<mapsto> [d0_1]] ''A'' False d60_1)) ''A'') \<and>
   fst (check_rate_limit_float binary64 limit1_config [''A'' \<mapsto> [d0_1]] ''A'' False d60_1)
     = Inr (False, Some 0)"
proof -
  have m: "d0_1 \<in> set (bucket_of [''A'' \<mapsto> [d0_1]] ''A'')"
    by (simp add: bucket_of_def)
  have a: "fsub binary64 d60_1 d0_1 = real_of_int (RATE_LIMIT_WINDOW limit1_config)"
    using sub64_d60_1_d0_1 by (simp add: limit1_config_def default_config_def)
  have r: "fst (check_rate_limit_float binary64 limit1_config [''A'' \<mapsto> [d0_1]] ''A'' False d60_1)
     = Inr (False, Some 0)"
    using sub64_d60_1_d0_1
    by (simp add: check_rate_limit_float_def py_int_of_float_def limit1_config_def
        default_config_def binary64_def round64_int round64_zero)
  from check_rate_limit_float_boundary [of binary64 limit1_config "[''A'' \<mapsto> [d0_1]]" "''A''"
      False d60_1] m a r
  show ?thesis by blast
qed

text \<open>
  C2 as the specification words it fails: with a limit of 1 and the timestamp 0 stored, a
  call at 60 is rejected (retry-after 0) and the timestamp 0 is still in the deque; had
  it been pruned the call would have been admitted.
\<close>

theorem check_rate_limit_float_boundary_counterexample:
  "fst (check_rate_limit_float binary64 limit1_config [''A'' \<mapsto> [0]] ''A'' False 60)
     = Inr (False, Some 0) \<and>
   snd (check_rate_limit_float binary64 limit1_config [''A'' \<mapsto> [0]] ''A'' False 60) ''A''
     = Some [0]"
  by (simp add: binary64_eval)

text \<open>
  Claim C7. A call for one client leaves the deque of every other client as it was, and
  its outcome and its own new deque depend on nothing but that client's deque. So after
  any series of calls for \<open>ip\<close>, a call for another client is decided as if those
  calls had never been made.
\<close>

theorem check_rate_limit_isolation:
  "(other \<noteq> ip \<longrightarrow>
      snd (check_rate_limit cfg b ip tr now) other = b other \<and>
      snd (check_all cfg b ip tr nows) other = b other \<and>
      fst (check_rate_limit cfg (snd (check_all cfg b ip tr nows)) other tr' now')
        = fst (check_rate_limit cfg b other tr' now')) \<and>
   (b1 ip = b2 ip \<longrightarrow>
      fst (check_rate_limit cfg b1 ip tr now) = fst (check_rate_limit cfg b2 ip tr now) \<and>
      snd (check_rate_limit cfg b1 ip tr now) ip = snd (check_rate_limit cfg b2 ip tr now) ip)"
proof -
  have "fst (check_rate_limit cfg (snd (check_all cfg b ip tr nows)) other tr' now')
        = fst (check_rate_limit cfg b other tr' now')" if "other \<noteq> ip"
    using check_rate_limit_local [of "snd (check_all cfg b ip tr nows)" other b cfg tr' now']
      check_all_frame [OF that, of cfg b tr nows]
    by simp
  then show ?thesis
    using check_rate_limit_frame [of other ip cfg b tr now]
      check_all_frame [of other ip cfg b tr nows]
      check_rate_limit_local [of b1 ip b2 cfg tr now]
    by blast
qed

text \<open>
  C7 on the scenario of the specification: client \<open>A\<close> uses up a limit of 3 and is
  rejected at the instant 3, while \<open>B\<close> has still no deque and is admitted at 3.
\<close>

theorem check_rate_limit_isolation_witness:
  "''B'' \<noteq> ''A'' \<and>
   fst (check_all limit3_config Map.empty ''A'' False [0, 1, 2, 3]) ! 3 = Inr (False, Some 57) \<and>
   snd (check_all limit3_config Map.empty ''A'' False [0, 1, 2, 3]) ''B'' = None \<and>
   fst (check_rate_limit limit3_config (snd (check_all limit3_config Map.empty ''A'' False [0, 1, 2, 3]))
          ''B'' False 3)
     = fst (check_rate_limit limit3_config Map.empty ''B'' False 3) \<and>
   fst (check_rate_limit limit3_config Map.empty ''B'' False 3) = Inr (True, None)"
proof -
  have h: "''B'' \<noteq> ''A''" by simp
  have a: "fst (check_all limit3_config Map.empty ''A'' False [0, 1, 2, 3]) ! 3 = Inr (False, Some 57)"
    by (simp add: limit3_config_def default_config_def check_rate_limit_def py_int_of_float_def)
  have c: "fst (check_rate_limit limit3_config Map.empty ''B'' False 3) = Inr (True, None)"
    by (simp add: limit3_config_def default_config_def check_rate_limit_def)
  from check_rate_limit_isolation [of "''B''" "''A''" limit3_config Map.empty False 0 "[0, 1, 2, 3]" False 3]
    h a c
  show ?thesis by simp
qed

text \<open>
  Claim C10. A rejected call does not append \<open>now\<close>: the client's deque after the call
  is the pruned deque, a suffix of the deque before, hence no longer than it. Every
  later call (at a clock reading that is not earlier) returns the same result and leaves
  the same dict as if the rejected call had not been made, so a rejected retry does not
  prolong the throttling.
\<close>

theorem check_rate_limit_rejected_no_append:
  assumes "check_rate_limit cfg b ip tr now = (Inr (False, r), b')"
  shows "b' = b(ip \<mapsto> prune (RATE_LIMIT_WINDOW cfg) now (bucket_of b ip)) \<and>
         (\<exists>dropped. bucket_of b ip = dropped @ bucket_of b' ip) \<and>
         length (bucket_of b' ip) \<le> length (bucket_of b ip) \<and>
         (now \<le> now' \<longrightarrow>
            check_rate_limit cfg b' ip tr' now' = check_rate_limit cfg b ip tr' now')"
proof -
  let ?bk = "prune (RATE_LIMIT_WINDOW cfg) now (bucket_of b ip)"
  from check_rate_limit_rejected [OF assms]
  have b': "b' = b(ip \<mapsto> ?bk)" by auto
  then have bo: "bucket_of b' ip = ?bk"
    by (simp add: bucket_of_def)
  have sf: "\<exists>dropped. bucket_of b ip = dropped @ bucket_of b' ip"
    unfolding bo by (rule prune_suffix)
  have le: "length (bucket_of b' ip) \<le> length (bucket_of b ip)"
    unfolding bo by (rule prune_length_le)
  have later: "check_rate_limit cfg b' ip tr' now' = check_rate_limit cfg b ip tr' now'"
    if "now \<le> now'"
  proof -
    have "prune (RATE_LIMIT_WINDOW cfg) now' (bucket_of b' ip)
            = prune (RATE_LIMIT_WINDOW cfg) now' (bucket_of b ip)"
      unfolding bo using prune_prune_later [OF that] .
    moreover have "b'(ip \<mapsto> ts) = b(ip \<mapsto> ts)" for ts
      unfolding b' by simp
    ultimately show ?thesis
      unfolding check_rate_limit_unfold [of cfg b'] check_rate_limit_unfold [of cfg b]
      by (simp add: Let_def cong: list.case_cong)
  qed
  from b' sf le later show ?thesis by blast
qed

text \<open>
  C10 at a concrete rejected call: the fourth call at 3 with a limit of 3; the call at
  61 is admitted with or without it.
\<close>

theorem check_rate_limit_rejected_no_append_witness:
  "check_rate_limit limit3_config [''A'' \<mapsto> [0, 1, 2]] ''A'' False 3
     = (Inr (False, Some 57), [''A'' \<mapsto> [0, 1, 2]]) \<and>
   length (bucket_of [''A'' \<mapsto> [0, 1, 2 :: real]] ''A'')
     \<le> length (bucket_of [''A'' \<mapsto> [0, 1, 2 :: real]] ''A'') \<and>
   (3 :: real) \<le> 61 \<and>
   check_rate_limit limit3_config [''A'' \<mapsto> [0, 1, 2]] ''A'' False 61
     = check_rate_limit limit3_config [''A'' \<mapsto> [0, 1, 2]] ''A'' False 61 \<and>
   fst (check_rate_limit limit3_config [''A'' \<mapsto> [0, 1, 2]] ''A'' False 61) = Inr (True, None)"
proof -
  have h: "check_rate_limit limit3_config [''A'' \<mapsto> [0, 1, 2]] ''A'' False 3
     = (Inr (False, Some 57), [''A'' \<mapsto> [0, 1, 2]])"
    by (simp add: limit3_config_def default_config_def check_rate_limit_def py_int_of_float_def)
  have l: "(3 :: real) \<le> 61" by simp
  have a: "fst (check_rate_limit limit3_config [''A'' \<mapsto> [0, 1, 2]] ''A'' False 61) = Inr (True, None)"
    by (simp add: limit3_config_def default_config_def check_rate_limit_def)
  from check_rate_limit_rejected_no_append [OF h, of 61 False] h l a
  show ?thesis by blast
qed

section \<open>Claims about the generator\<close>

text \<open>
  Claim C3, as the code has it. For every input \<open>generate_password\<close> returns a
  password that contains an uppercase letter if \<open>upper\<close> is set, a digit if \<open>nums\<close>
  is set and a punctuation character if \<open>special\<close> is set. A lowercase letter is
  certain only when none of the three flags is set and the length is at least 1 (the
  whole alphabet is lowercase then); lowercase is in the alphabet but is not one of the
  required groups.
\<close>

theorem generate_password_class_inclusion:
  "\<exists>pw g'. generate_password len upper nums special g = Inr (pw, g') \<and>
     (upper \<longrightarrow> (\<exists>c\<in>set pw. c \<in> set ascii_uppercase)) \<and>
     (nums \<longrightarrow> (\<exists>c\<in>set pw. c \<in> set digits)) \<and>
     (special \<longrightarrow> (\<exists>c\<in>set pw. c \<in> set punctuation)) \<and>
     (\<not> upper \<and> \<not> nums \<and> \<not> special \<and> 1 \<le> len \<longrightarrow>
        (\<exists>c\<in>set pw. c \<in> set ascii_lowercase))"
proof -
  obtain rs fs pw g' where gp: "generate_password len upper nums special g = Inr (pw, g')"
    and m: "mset pw = mset (rs @ fs)"
    and rs: "list_all2 (\<lambda>c grp. c \<in> set grp) rs (required_groups_of upper nums special)"
    and fs: "length fs = nat (len - int (enabled_groups upper nums special))"
            "set fs \<subseteq> set (chars_of upper nums special)"
    using generate_password_shape by blast
  have s: "set pw = set rs \<union> set fs"
    using m by (metis set_mset_mset set_append)
  have u: "\<exists>c\<in>set pw. c \<in> set ascii_uppercase" if upper
    using required_member [OF rs, of ascii_uppercase] that s
    by (auto simp: required_groups_of_def)
  have d: "\<exists>c\<in>set pw. c \<in> set digits" if nums
    using required_member [OF rs, of digits] that s
    by (auto simp: required_groups_of_def)
  have p: "\<exists>c\<in>set pw. c \<in> set punctuation" if special
    using required_member [OF rs, of punctuation] that s
    by (auto simp: required_groups_of_def)
  have l: "\<exists>c\<in>set pw. c \<in> set ascii_lowercase"
    if "\<not> upper \<and> \<not> nums \<and> \<not> special \<and> 1 \<le> len"
  proof -
    from that fs(1) have "fs \<noteq> []"
      by (auto simp: enabled_groups_def)
    then obtain c where "c \<in> set fs"
      by (cases fs) auto
    with fs(2) that have "c \<in> set pw" "c \<in> set ascii_lowercase"
      using s lowercase_only by auto
    then show ?thesis by blast
  qed
  from gp u d p l show ?thesis by blast
qed

text \<open>C3 with the three flags set, at length 8.\<close>

theorem generate_password_class_inclusion_witness:
  "\<exists>pw g'. generate_password 8 True True True (constant_draws 0) = Inr (pw, g') \<and>
     (\<exists>c\<in>set pw. c \<in> set ascii_uppercase) \<and>
     (\<exists>c\<in>set pw. c \<in> set digits) \<and>
     (\<exists>c\<in>set pw. c \<in> set punctuation)"
  using generate_password_class_inclusion [of 8 True True True "constant_draws 0"]
  by simp

text \<open>
  C3 as the specification words it fails: at length 8 with only \<open>upper\<close> set, draws
  that are all 26 pick \<open>A\<close> from the uppercase group and \<open>A\<close> (index 26 of the 52
  characters) at each of the seven fills, so the password has no lowercase letter.
\<close>

theorem generate_password_lowercase_counterexample:
  "map_sum id fst (generate_password 8 True False False (constant_draws 26)) = Inr ''AAAAAAAA'' \<and>
   (1::int) \<le> 8 \<and> set ''AAAAAAAA'' \<inter> set ascii_lowercase = {}"
proof -
  let ?g = "constant_draws 26"
  have p: "pick_required (required_groups_of True False False) [] ?g = Inr (''A'', ?g)"
    by (simp add: required_groups_of_def choice_constant_draws ascii_uppercase_def)
  have c: "chars_of True False False ! (26 mod length (chars_of True False False)) = CHR ''A''"
    by (simp add: chars_of_def ascii_lowercase_def ascii_uppercase_def)
  have f: "fill_remaining (nat (8 - int (length ''A''))) (chars_of True False False) ''A'' ?g
             = Inr (replicate 8 CHR ''A'', ?g)"
    unfolding fill_remaining_constant_draws [OF chars_of_nonempty] c
    by (simp add: eval_nat_numeral)
  have s: "fst (shuffle (replicate 8 CHR ''A'') ?g) = replicate 8 CHR ''A''"
    by (simp add: shuffle_def shuffle_loop_replicate)
  have "map_sum id fst (generate_password 8 True False False ?g) = Inr (replicate 8 CHR ''A'')"
    using p f s by (simp add: generate_password_def chars_of_nonempty split_beta)
  moreover have "replicate 8 CHR ''A'' = ''AAAAAAAA''"
    by (simp add: eval_nat_numeral)
  moreover have "set ''AAAAAAAA'' \<inter> set ascii_lowercase = {}"
    by (simp add: ascii_lowercase_def)
  ultimately show ?thesis by simp
qed

text \<open>
  Claim C4, as the code has it. \<open>generate_password\<close> has no check of the length and
  raises nothing, whatever the length and the flags. With the three flags set, length 4
  gives a password of 4 characters and length 3 one of 3 characters.
\<close>

theorem generate_password_no_length_error:
  "(\<forall>e. generate_password len upper nums special g \<noteq> Inl e) \<and>
   (\<exists>pw g'. generate_password 4 True True True g = Inr (pw, g') \<and> length pw = 4) \<and>
   (\<exists>pw g'. generate_password 3 True True True g = Inr (pw, g') \<and> length pw = 3)"
proof -
  have a: "\<forall>e. generate_password len upper nums special g \<noteq> Inl e"
    using generate_password_length [of len upper nums special g] by auto
  have b: "\<exists>pw g'. generate_password 4 True True True g = Inr (pw, g') \<and> length pw = 4"
    using generate_password_length [of 4 True True True g]
    by (auto simp: enabled_groups_def)
  have c: "\<exists>pw g'. generate_password 3 True True True g = Inr (pw, g') \<and> length pw = 3"
    using generate_password_length [of 3 True True True g]
    by (auto simp: enabled_groups_def)
  from a b c show ?thesis by blast
qed

text \<open>C4 at length 2 with the three flags set: no error is returned.\<close>

theorem generate_password_no_length_error_witness:
  "generate_password 2 True True True (constant_draws 0) \<noteq> Inl (ValueError ''InvalidLength'')"
  using generate_password_no_length_error [of 2 True True True "constant_draws 0"]
  by blast

text \<open>
  C4 as the specification words it fails: length 3 is below the four active classes, and
  the call returns the three required characters instead of raising.
\<close>

theorem generate_password_short_length_counterexample:
  "map_sum id fst (generate_password 3 True True True (constant_draws 0)) = Inr ''0!A'' \<and>
   (3::int) < 1 + int (enabled_groups True True True)"
proof -
  have "map_sum id fst (generate_password 3 True True True (constant_draws 0)) = Inr ''0!A''"
    by code_simp
  then show ?thesis by (simp add: enabled_groups_def)
qed

text \<open>
  Claim C5. When the length is at least the number of active classes (lowercase and the
  enabled groups), the password returned has exactly that length.
\<close>

theorem generate_password_length_exact:
  assumes "1 + int (enabled_groups upper nums special) \<le> len"
  shows "\<exists>pw g'. generate_password len upper nums special g = Inr (pw, g') \<and>
           int (length pw) = len"
  using generate_password_length [of len upper nums special g] assms by auto

text \<open>C5 at the smallest valid length with the three flags set.\<close>

theorem generate_password_length_exact_witness:
  "1 + int (enabled_groups True True True) \<le> 4 \<and>
   (\<exists>pw g'. generate_password 4 True True True (constant_draws 0) = Inr (pw, g') \<and>
      int (length pw) = 4)"
proof -
  have h: "1 + int (enabled_groups True True True) \<le> 4"
    by (simp add: enabled_groups_def)
  from generate_password_length_exact [OF h, of "constant_draws 0"] h
  show ?thesis by blast
qed

text \<open>
  Claim C8. The string \<open>chars\<close> starts with the lowercase alphabet and is never empty,
  so the branch \<open>raise ValueError("No character sets selected")\<close> is not taken:
  \<open>generate_password\<close> returns no ValueError for any flags, length and draws.
\<close>

theorem generate_password_composition_unreachable:
  "chars_of upper nums special \<noteq> [] \<and>
   (\<forall>m. generate_password len upper nums special g \<noteq> Inl (ValueError m))"
  using generate_password_length [of len upper nums special g] chars_of_nonempty
  by auto

text \<open>C8 with no flag set, where the alphabet is smallest.\<close>

theorem generate_password_composition_unreachable_witness:
  "chars_of False False False \<noteq> [] \<and>
   generate_password 8 False False False (constant_draws 0)
     \<noteq> Inl (ValueError ''No character sets selected'')"
  using generate_password_composition_unreachable [of False False False 8 "constant_draws 0"]
  by blast

text \<open>
  Claim C9. For every input \<open>generate_password\<close> returns, without raising, a password
  of exactly \<open>max(length, g)\<close> characters, \<open>g\<close> being the number of enabled groups
  among upper, digits and special; when the length is below \<open>g\<close> the password is
  longer than requested.
\<close>

theorem generate_password_length_max:
  "\<exists>pw g'. generate_password len upper nums special g = Inr (pw, g') \<and>
     int (length pw) = max len (int (enabled_groups upper nums special)) \<and>
     (len < int (enabled_groups upper nums special) \<longrightarrow> len < int (length pw))"
  using generate_password_length [of len upper nums special g] by auto

text \<open>C9 at length 2 with the three flags set: three characters are returned.\<close>

theorem generate_password_length_max_witness:
  "(2::int) < int (enabled_groups True True True) \<and>
   (\<exists>pw g'. generate_password 2 True True True (constant_draws 0) = Inr (pw, g') \<and>
     int (length pw) = max 2 (int (enabled_groups True True True)) \<and>
     2 < int (length pw))"
proof -
  have h: "(2::int) < int (enabled_groups True True True)"
    by (simp add: enabled_groups_def)
  from generate_password_length_max [of 2 True True True "constant_draws 0"] h
  show ?thesis by auto
qed

section \<open>Claims about the request handler\<close>

text \<open>
  Claim C6. For a request that the rate limiter admits, whose length is within 8 to 128
  and whose \<open>count\<close> argument parses to an integer, the handler answers 200 with a
  list of passwords whose number is the count clamped to the range 1 to 100: 100
  passwords for a count of 250, one password for a count of 0.
\<close>

theorem api_generate_count_clamped:
  assumes "fst (check_rate_limit cfg (rate_buckets_of st) (client_ip_of req) (is_trusted_of cfg req) now)
             = Inr (True, None)"
    and "int_arg to_int req ''length'' 16 = Some len" and "8 \<le> len" and "len \<le> 128"
    and "int_arg to_int req ''count'' 1 = Some cnt"
  shows "\<exists>passwords. fst (api_generate to_int cfg st req now ts g) = Inr (Passwords passwords, 200) \<and>
           int (length passwords) = max 1 (min 100 cnt) \<and>
           (cnt = 250 \<longrightarrow> length passwords = 100) \<and>
           (cnt = 0 \<longrightarrow> length passwords = 1)"
proof -
  obtain b1 where c: "check_rate_limit cfg (rate_buckets_of st) (client_ip_of req) (is_trusted_of cfg req) now
             = (Inr (True, None), b1)"
    using assms(1) by (cases "check_rate_limit cfg (rate_buckets_of st) (client_ip_of req) (is_trusted_of cfg req) now") simp
  let ?n = "nat (if (if cnt < 1 then 1 else cnt) > 100 then 100 else (if cnt < 1 then 1 else cnt))"
  obtain ps g1 where ps: "generate_many ?n len (flag_arg req ''upper'') (flag_arg req ''numbers'')
        (flag_arg req ''special'') g = Inr (ps, g1)" "length ps = ?n"
    using generate_many_Inr by blast
  have r: "fst (api_generate to_int cfg st req now ts g) = Inr (Passwords ps, 200)"
    using c assms(2-5) ps(1) by (simp add: api_generate_def Let_def)
  have n: "int (length ps) = max 1 (min 100 cnt)"
    using ps(2) by auto
  then have "cnt = 250 \<longrightarrow> length ps = 100" "cnt = 0 \<longrightarrow> length ps = 1"
    by auto
  with r n show ?thesis by blast
qed

text \<open>C6 on the two requests of the specification, \<open>count=250\<close> and \<open>count=0\<close>.\<close>

theorem api_generate_count_clamped_witness:
  "(\<exists>passwords.
      fst (api_generate to_int_sample default_config fresh_state (count_request ''250'') 0 0
             (constant_draws 0))
        = Inr (Passwords passwords, 200) \<and>
      length passwords = 100) \<and>
   (\<exists>passwords.
      fst (api_generate to_int_sample default_config fresh_state (count_request ''0'') 0 0
             (constant_draws 0))
        = Inr (Passwords passwords, 200) \<and>
      length passwords = 1)"
proof -
  have h1: "fst (check_rate_limit default_config (rate_buckets_of fresh_state)
              (client_ip_of (count_request v)) (is_trusted_of default_config (count_request v)) 0)
            = Inr (True, None)" for v
    by (simp add: check_rate_limit_def default_config_def client_ip_of_def is_trusted_of_def
        fresh_state_def count_request_def)
  have h2: "int_arg to_int_sample (count_request v) ''length'' 16 = Some 16" for v
    by (simp add: int_arg_def count_request_def)
  have h3: "int_arg to_int_sample (count_request ''250'') ''count'' 1 = Some 250"
    by (simp add: int_arg_def count_request_def to_int_sample_def)
  have h4: "int_arg to_int_sample (count_request ''0'') ''count'' 1 = Some 0"
    by (simp add: int_arg_def count_request_def to_int_sample_def)
  have r: "(8::int) \<le> 16" "(16::int) \<le> 128"
    by simp_all
  from api_generate_count_clamped [OF h1 h2 r h3, of 0 "constant_draws 0"]
    api_generate_count_clamped [OF h1 h2 r h4, of 0 "constant_draws 0"]
  show ?thesis by simp
qed

end
